theory Spec2Isabelle
  imports Main "HOL-Library.AList"
begin

section \<open>Shared vocabulary\<close>

text \<open>
  Python \<open>str\<close> values and \<open>bytes\<close> values are both lists of 8-bit characters here.
  For \<open>bytes\<close> a character is one byte; for \<open>str\<close> a character is one code point in
  U+0000..U+00FF (see the section on text below for the alphabet the model covers).
\<close>

type_synonym str = string
type_synonym bytes = string

text \<open>
  The exceptions the modelled code can raise. \<open>Unmodelled\<close> is not a Python exception:
  it marks input outside the alphabet this development writes the character tables for.
\<close>

datatype error =
    KeyError
  | IndexError
  | ValueError
  | IncompleteReadError
  | LimitOverrunError
  | OSError
  | Unmodelled

section \<open>The response cache: class InMemoryResponseCache\<close>

text \<open>
  The value stored under a key is the dict \<open>{"response": response, "HIT_TTL": n}\<close>.
  \<open>HIT_TTL\<close> is a Python int, hence unbounded.
\<close>

record 'v entry =
  response :: 'v
  HIT_TTL :: int

text \<open>
  \<open>InMemoryResponseCache\<close>: the \<open>OrderedDict\<close> \<open>_cache\<close> is an association list in
  iteration order (first element = the end \<open>popitem(last=False)\<close> pops), together with
  the three configuration attributes. The eviction policy is a \<open>str\<close>, as in the source.
\<close>

record 'v cache =
  store :: "(str \<times> 'v entry) list"
  cache_size_limit :: int
  eviction_policy :: str
  hit_ttl :: int

text \<open>\<open>InMemoryResponseCache(cache_size_limit, eviction_policy, hit_ttl)\<close>.\<close>

definition new_cache :: "int \<Rightarrow> str \<Rightarrow> int \<Rightarrow> 'v cache" where
  "new_cache limit policy ttl =
     \<lparr>store = [], cache_size_limit = limit, eviction_policy = policy, hit_ttl = ttl\<rparr>"

text \<open>
  The \<open>OrderedDict\<close> primitives the class uses. \<open>d[k] = v\<close> on a present key replaces the
  value where it stands and on an absent key appends: that is \<open>AList.update\<close>.
  \<open>d.pop(k)\<close> and \<open>d.move_to_end(k)\<close> raise \<open>KeyError\<close> on an absent key,
  \<open>d.popitem(last=False)\<close> raises it on an empty dict.
\<close>

definition od_pop :: "'k \<Rightarrow> ('k \<times> 'a) list \<Rightarrow> error + ('k \<times> 'a) list" where
  "od_pop k d = (case map_of d k of None \<Rightarrow> Inl KeyError | Some _ \<Rightarrow> Inr (AList.delete k d))"

definition od_move_to_end :: "'k \<Rightarrow> ('k \<times> 'a) list \<Rightarrow> error + ('k \<times> 'a) list" where
  "od_move_to_end k d =
     (case map_of d k of None \<Rightarrow> Inl KeyError | Some v \<Rightarrow> Inr (AList.delete k d @ [(k, v)]))"

definition od_popitem_first :: "('k \<times> 'a) list \<Rightarrow> error + (('k \<times> 'a) \<times> ('k \<times> 'a) list)" where
  "od_popitem_first d = (case d of [] \<Rightarrow> Inl KeyError | x # xs \<Rightarrow> Inr (x, xs))"

definition get_cache_size :: "'v cache \<Rightarrow> nat" where
  "get_cache_size c = length (store c)"

definition remove_from_cache :: "'v cache \<Rightarrow> str \<Rightarrow> error + 'v cache" where
  "remove_from_cache c key =
     (case od_pop key (store c) of Inl e \<Rightarrow> Inl e | Inr d \<Rightarrow> Inr (c\<lparr>store := d\<rparr>))"

text \<open>
  \<open>has_cached_response\<close> returns the answer and the cache, which it changes when it
  finds the entry expired.
\<close>

definition has_cached_response :: "'v cache \<Rightarrow> str \<Rightarrow> error + (bool \<times> 'v cache)" where
  "has_cached_response c key =
     (case map_of (store c) key of
        None \<Rightarrow> Inr (False, c)
      | Some cached_value \<Rightarrow>
          if HIT_TTL cached_value = 0
          then (case remove_from_cache c key of Inl e \<Rightarrow> Inl e | Inr c' \<Rightarrow> Inr (False, c'))
          else Inr (True, c))"

text \<open>
  \<open>evict\<close>: a \<open>match\<close> on the policy string; a string that is none of the three cases
  matches nothing and the method returns without doing anything.
\<close>

definition evict :: "'v cache \<Rightarrow> error + 'v cache" where
  "evict c =
     (if eviction_policy c = ''entire'' then Inr (c\<lparr>store := []\<rparr>)
      else if eviction_policy c = ''lru'' then
        (case od_popitem_first (store c) of
           Inl e \<Rightarrow> Inl e
         | Inr (removed, d) \<Rightarrow> Inr (c\<lparr>store := d\<rparr>))
      else if eviction_policy c = ''none'' then Inr c
      else Inr c)"

text \<open>
  \<open>cache_response\<close>, in the source's order: the early return for a size limit of 0,
  the eviction when the store holds at least \<open>cache_size_limit\<close> entries
  (\<open>evict_if_full\<close>, lines 44 to 46 of the method), then the assignment
  \<open>self._cache[key] = {...}\<close>.
\<close>

definition evict_if_full :: "'v cache \<Rightarrow> error + 'v cache" where
  "evict_if_full c =
     (if int (length (store c)) \<ge> cache_size_limit c then evict c else Inr c)"

definition cache_response :: "'v cache \<Rightarrow> str \<Rightarrow> 'v \<Rightarrow> error + 'v cache" where
  "cache_response c key resp =
     (if cache_size_limit c = 0 then Inr c
      else
        (case evict_if_full c of
           Inl e \<Rightarrow> Inl e
         | Inr c1 \<Rightarrow>
             Inr (c1\<lparr>store :=
                    AList.update key \<lparr>response = resp, HIT_TTL = hit_ttl c1\<rparr> (store c1)\<rparr>)))"

text \<open>
  \<open>get_cached_response\<close>: the lookup \<open>self._cache[key]\<close> raises \<open>KeyError\<close> before
  anything is changed; then the entry's counter is decremented in place, the entry is
  moved to the end and its response returned.
\<close>

definition get_cached_response :: "'v cache \<Rightarrow> str \<Rightarrow> error + ('v \<times> 'v cache)" where
  "get_cached_response c key =
     (case map_of (store c) key of
        None \<Rightarrow> Inl KeyError
      | Some cached_value \<Rightarrow>
          (let cached_value' = cached_value\<lparr>HIT_TTL := HIT_TTL cached_value - 1\<rparr>;
               d1 = AList.update key cached_value' (store c)
           in case od_move_to_end key d1 of
                Inl e \<Rightarrow> Inl e
              | Inr d2 \<Rightarrow> Inr (response cached_value', c\<lparr>store := d2\<rparr>)))"

text \<open>One pass of the body of \<open>periodic_cache_cleaner\<close>'s loop (main.py), after the sleep.\<close>

definition periodic_cache_cleaner_pass :: "'v cache \<Rightarrow> error + 'v cache" where
  "periodic_cache_cleaner_pass storage =
     (if get_cache_size storage = 0 then Inr storage else evict storage)"

text \<open>The keys of the store in iteration order.\<close>

definition cache_keys :: "'v cache \<Rightarrow> str list" where
  "cache_keys c = map fst (store c)"

text \<open>
  What the proxy handler does with a key on the cache side of a request: ask
  \<open>has_cached_response\<close> and, on a hit, call \<open>get_cached_response\<close>. The result is
  \<open>Some\<close> of the response served, or \<open>None\<close> for a miss.
\<close>

definition lookup :: "'v cache \<Rightarrow> str \<Rightarrow> error + ('v option \<times> 'v cache)" where
  "lookup c key =
     (case has_cached_response c key of
        Inl e \<Rightarrow> Inl e
      | Inr (hit, c1) \<Rightarrow>
          if hit then
            (case get_cached_response c1 key of
               Inl e \<Rightarrow> Inl e
             | Inr (v, c2) \<Rightarrow> Inr (Some v, c2))
          else Inr (None, c1))"

fun lookups :: "nat \<Rightarrow> 'v cache \<Rightarrow> str \<Rightarrow> error + ('v option list \<times> 'v cache)" where
  "lookups 0 c key = Inr ([], c)"
| "lookups (Suc n) c key =
     (case lookup c key of
        Inl e \<Rightarrow> Inl e
      | Inr (r, c1) \<Rightarrow>
          (case lookups n c1 key of
             Inl e \<Rightarrow> Inl e
           | Inr (rs, c2) \<Rightarrow> Inr (r # rs, c2)))"

text \<open>\<open>cache_response\<close> for each pair of a list in turn, stopping at the first exception.\<close>

fun cache_responses :: "'v cache \<Rightarrow> (str \<times> 'v) list \<Rightarrow> error + 'v cache" where
  "cache_responses c [] = Inr c"
| "cache_responses c ((k, v) # kvs) =
     (case cache_response c k v of Inl e \<Rightarrow> Inl e | Inr c1 \<Rightarrow> cache_responses c1 kvs)"

subsection \<open>Sequences of cache operations\<close>

datatype 'v cache_op =
    Cache_response str 'v
  | Get_cached_response str
  | Has_cached_response str
  | Remove_from_cache str
  | Evict

definition apply_op :: "'v cache \<Rightarrow> 'v cache_op \<Rightarrow> error + 'v cache" where
  "apply_op c op =
     (case op of
        Cache_response k v \<Rightarrow> cache_response c k v
      | Get_cached_response k \<Rightarrow>
          (case get_cached_response c k of Inl e \<Rightarrow> Inl e | Inr (v, c') \<Rightarrow> Inr c')
      | Has_cached_response k \<Rightarrow>
          (case has_cached_response c k of Inl e \<Rightarrow> Inl e | Inr (b, c') \<Rightarrow> Inr c')
      | Remove_from_cache k \<Rightarrow> remove_from_cache c k
      | Evict \<Rightarrow> evict c)"

text \<open>
  In each method the statement that can raise (\<open>self._cache[key]\<close>, \<open>pop\<close>,
  \<open>popitem\<close>) comes before every assignment to the cache, so a call that raises leaves
  the cache as it found it; the caller (the handler's \<open>except\<close>, a test) goes on with
  that cache.
\<close>

definition step :: "'v cache \<Rightarrow> 'v cache_op \<Rightarrow> 'v cache" where
  "step c op = (case apply_op c op of Inl e \<Rightarrow> c | Inr c' \<Rightarrow> c')"

definition run_ops :: "'v cache \<Rightarrow> 'v cache_op list \<Rightarrow> 'v cache" where
  "run_ops c ops = foldl step c ops"





section \<open>Properties of the response cache\<close>

subsection \<open>The methods one by one\<close>

lemma get_cached_response_present:
  assumes "map_of (store c) key = Some e"
  shows "get_cached_response c key =
           Inr (response e,
                c\<lparr>store := AList.delete key (store c) @ [(key, e\<lparr>HIT_TTL := HIT_TTL e - 1\<rparr>)]\<rparr>)"
proof -
  have m: "map_of (AList.update key (e\<lparr>HIT_TTL := HIT_TTL e - 1\<rparr>) (store c)) key
             = Some (e\<lparr>HIT_TTL := HIT_TTL e - 1\<rparr>)"
    by (simp add: AList.update_conv')
  have d: "AList.delete key (AList.update key (e\<lparr>HIT_TTL := HIT_TTL e - 1\<rparr>) (store c))
             = AList.delete key (store c)"
    by (simp add: AList.delete_update_same)
  show ?thesis
    using assms by (simp add: get_cached_response_def od_move_to_end_def Let_def m d)
qed


lemma map_of_moved_same: "map_of (AList.delete k d @ [(k, e)]) k = Some e"
  by (simp add: AList.delete_conv' map_add_def)

lemma map_of_moved_other: "k' \<noteq> k \<Longrightarrow> map_of (AList.delete k d @ [(k, e)]) k' = map_of d k'"
  by (auto simp add: AList.delete_conv' map_add_def split: option.splits)

lemma has_cached_response_absent:
  "map_of (store c) key = None \<Longrightarrow> has_cached_response c key = Inr (False, c)"
  by (simp add: has_cached_response_def)

lemma has_cached_response_live:
  "map_of (store c) key = Some e \<Longrightarrow> HIT_TTL e \<noteq> 0 \<Longrightarrow>
   has_cached_response c key = Inr (True, c)"
  by (simp add: has_cached_response_def)

lemma has_cached_response_expired:
  "map_of (store c) key = Some e \<Longrightarrow> HIT_TTL e = 0 \<Longrightarrow>
   has_cached_response c key = Inr (False, c\<lparr>store := AList.delete key (store c)\<rparr>)"
  by (simp add: has_cached_response_def remove_from_cache_def od_pop_def)

lemma evict_if_full_ok:
  assumes "0 \<le> cache_size_limit c" "cache_size_limit c \<noteq> 0"
  shows "\<exists>c1. evict_if_full c = Inr c1 \<and> cache_size_limit c1 = cache_size_limit c
              \<and> hit_ttl c1 = hit_ttl c \<and> eviction_policy c1 = eviction_policy c"
proof (cases "int (length (store c)) \<ge> cache_size_limit c")
  case False
  then show ?thesis by (simp add: evict_if_full_def)
next
  case True
  with assms have "store c \<noteq> []" by auto
  then obtain x xs where "store c = x # xs" by (cases "store c") auto
  with True show ?thesis
    by (simp add: evict_if_full_def evict_def od_popitem_first_def)
qed

lemma cache_response_ok:
  assumes "0 \<le> cache_size_limit c"
  shows "\<exists>c'. cache_response c key resp = Inr c'"
proof (cases "cache_size_limit c = 0")
  case True
  then show ?thesis by (simp add: cache_response_def)
next
  case False
  with assms evict_if_full_ok[of c] obtain c1 where "evict_if_full c = Inr c1" by blast
  with False show ?thesis by (simp add: cache_response_def)
qed

lemma cache_response_stores:
  assumes "0 < cache_size_limit c"
  shows "\<exists>c'. cache_response c key resp = Inr c'
           \<and> map_of (store c') key = Some \<lparr>response = resp, HIT_TTL = hit_ttl c\<rparr>
           \<and> cache_size_limit c' = cache_size_limit c \<and> hit_ttl c' = hit_ttl c
           \<and> eviction_policy c' = eviction_policy c"
proof -
  from assms evict_if_full_ok[of c] obtain c1 where
    c1: "evict_if_full c = Inr c1" "cache_size_limit c1 = cache_size_limit c"
        "hit_ttl c1 = hit_ttl c" "eviction_policy c1 = eviction_policy c"
    by auto
  with assms show ?thesis
    by (simp add: cache_response_def AList.update_conv')
qed

subsection \<open>Reading an entry (claim C1)\<close>

text \<open>
  C1, as the code has it. For every key present in the cache, \<open>get_cached_response\<close>
  returns the stored response and leaves the entry with the same response and a hit
  count that is smaller by exactly 1, whatever the count was: there is no test for the
  negative "unlimited" value, which is decremented like any other and so stays negative.
  The entry ends up last in the iteration order and no other entry changes.
\<close>

theorem get_cached_response_decrements:
  assumes "map_of (store c) key = Some e"
  shows "\<exists>c'. get_cached_response c key = Inr (response e, c')
           \<and> map_of (store c') key = Some (e\<lparr>HIT_TTL := HIT_TTL e - 1\<rparr>)
           \<and> (HIT_TTL e < 0 \<longrightarrow> HIT_TTL (e\<lparr>HIT_TTL := HIT_TTL e - 1\<rparr>) < 0)
           \<and> last (cache_keys c') = key
           \<and> (\<forall>k. k \<noteq> key \<longrightarrow> map_of (store c') k = map_of (store c) k)"
  using assms
  by (simp add: get_cached_response_present cache_keys_def map_of_moved_same map_of_moved_other
        del: map_of_append)

theorem get_cached_response_decrements_witness:
  "map_of (store (\<lparr>store = [(''a'', \<lparr>response = ''A'', HIT_TTL = 3\<rparr>),
                              (''b'', \<lparr>response = ''B'', HIT_TTL = 1\<rparr>)],
                     cache_size_limit = 2, eviction_policy = ''lru'', hit_ttl = 3\<rparr>)) ''a''
     = Some \<lparr>response = ''A'', HIT_TTL = 3\<rparr>
   \<and> (\<exists>c'. get_cached_response
              \<lparr>store = [(''a'', \<lparr>response = ''A'', HIT_TTL = 3\<rparr>),
                        (''b'', \<lparr>response = ''B'', HIT_TTL = 1\<rparr>)],
               cache_size_limit = 2, eviction_policy = ''lru'', hit_ttl = 3\<rparr> ''a''
              = Inr (''A'', c')
            \<and> map_of (store c') ''a'' = Some \<lparr>response = ''A'', HIT_TTL = 2\<rparr>
            \<and> last (cache_keys c') = ''a'')"
proof -
  let ?c = "\<lparr>store = [(''a'', \<lparr>response = ''A'', HIT_TTL = 3\<rparr>),
                       (''b'', \<lparr>response = ''B'', HIT_TTL = 1\<rparr>)],
              cache_size_limit = 2, eviction_policy = ''lru'', hit_ttl = (3::int)\<rparr>"
  have h: "map_of (store ?c) ''a'' = Some \<lparr>response = ''A'', HIT_TTL = 3\<rparr>" by simp
  from get_cached_response_decrements[OF h] h show ?thesis by auto
qed

text \<open>
  The claim as the spec words it (no decrement for a negative count) fails: an entry
  holding \<open>-1\<close> holds \<open>-2\<close> after one read.
\<close>

theorem get_cached_response_unlimited_counterexample:
  "get_cached_response
     \<lparr>store = [(''k'', \<lparr>response = ''v'', HIT_TTL = - 1\<rparr>)],
      cache_size_limit = 10, eviction_policy = ''lru'', hit_ttl = - 1\<rparr> ''k''
   = Inr (''v'', \<lparr>store = [(''k'', \<lparr>response = ''v'', HIT_TTL = - 2\<rparr>)],
                  cache_size_limit = 10, eviction_policy = ''lru'', hit_ttl = - 1\<rparr>)"
  by (simp add: get_cached_response_def od_move_to_end_def Let_def)

subsection \<open>Expiry after \<open>hit_ttl\<close> reads (claim C3)\<close>

lemma lookup_live:
  assumes "map_of (store c) key = Some e" "HIT_TTL e \<noteq> 0"
  shows "lookup c key =
           Inr (Some (response e),
                c\<lparr>store := AList.delete key (store c) @ [(key, e\<lparr>HIT_TTL := HIT_TTL e - 1\<rparr>)]\<rparr>)"
  using assms
  by (simp add: lookup_def has_cached_response_live get_cached_response_present)

lemma lookups_count_down:
  assumes "map_of (store c) key = Some e" "HIT_TTL e = int n"
  shows "\<exists>c'. lookups n c key = Inr (replicate n (Some (response e)), c')
           \<and> (n > 0 \<longrightarrow> map_of (store c') key = Some (e\<lparr>HIT_TTL := 0\<rparr>))
           \<and> (n = 0 \<longrightarrow> c' = c)"
  using assms
proof (induction n arbitrary: c e)
  case 0
  then show ?case by simp
next
  case (Suc n)
  let ?e1 = "e\<lparr>HIT_TTL := HIT_TTL e - 1\<rparr>"
  let ?c1 = "c\<lparr>store := AList.delete key (store c) @ [(key, ?e1)]\<rparr>"
  from Suc.prems have l: "lookup c key = Inr (Some (response e), ?c1)"
    by (intro lookup_live) auto
  have m: "map_of (store ?c1) key = Some ?e1"
    by (simp add: map_of_moved_same del: map_of_append)
  have t: "HIT_TTL ?e1 = int n" using Suc.prems by simp
  from Suc.IH[OF m t] obtain c' where
    c': "lookups n ?c1 key = Inr (replicate n (Some (response ?e1)), c')"
        "n > 0 \<longrightarrow> map_of (store c') key = Some (?e1\<lparr>HIT_TTL := 0\<rparr>)"
        "n = 0 \<longrightarrow> c' = ?c1"
    by blast
  have "map_of (store c') key = Some (e\<lparr>HIT_TTL := 0\<rparr>)"
  proof (cases "n = 0")
    case True
    with c'(3) m t show ?thesis by simp
  next
    case False
    with c'(2) show ?thesis by simp
  qed
  with l c'(1) show ?case by simp
qed

text \<open>
  C3. On a cache with \<open>cache_size_limit > 0\<close> and \<open>hit_ttl = n > 0\<close>, in any state and
  under any policy: \<open>cache_response(k, v)\<close> succeeds; the next \<open>n\<close> lookups (each
  \<open>has_cached_response(k)\<close> followed, on a hit, by \<open>get_cached_response(k)\<close>) are all
  hits that return \<open>v\<close>; the entry is then still in the store, with count 0; and the
  following \<open>has_cached_response(k)\<close> returns False and removes it.
\<close>

theorem ttl_exhaustion:
  assumes "0 < cache_size_limit c" "hit_ttl c = int n" "0 < n"
  shows "\<exists>c1 c2 c3 e.
           cache_response c k v = Inr c1
           \<and> lookups n c1 k = Inr (replicate n (Some v), c2)
           \<and> map_of (store c2) k = Some e \<and> HIT_TTL e = 0
           \<and> has_cached_response c2 k = Inr (False, c3)
           \<and> map_of (store c3) k = None"
proof -
  let ?e = "\<lparr>response = v, HIT_TTL = hit_ttl c\<rparr>"
  from cache_response_stores[OF assms(1)] obtain c1 where
    c1: "cache_response c k v = Inr c1" "map_of (store c1) k = Some ?e"
    by blast
  have "HIT_TTL ?e = int n" using assms(2) by simp
  from lookups_count_down[OF c1(2) this] assms(3) obtain c2 where
    c2: "lookups n c1 k = Inr (replicate n (Some v), c2)"
        "map_of (store c2) k = Some (?e\<lparr>HIT_TTL := 0\<rparr>)"
    by auto
  have h: "has_cached_response c2 k = Inr (False, c2\<lparr>store := AList.delete k (store c2)\<rparr>)"
    using c2(2) by (intro has_cached_response_expired) auto
  have "map_of (store (c2\<lparr>store := AList.delete k (store c2)\<rparr>)) k = None"
    by (simp add: AList.delete_conv')
  with c1(1) c2 h show ?thesis by force
qed

theorem ttl_exhaustion_witness:
  "0 < cache_size_limit (new_cache 10 ''lru'' 2 :: string cache)
   \<and> hit_ttl (new_cache 10 ''lru'' 2 :: string cache) = int 2 \<and> (0::nat) < 2
   \<and> (\<exists>c1 c2 c3 e.
          cache_response (new_cache 10 ''lru'' 2) ''K'' ''v'' = Inr c1
          \<and> lookups 2 c1 ''K'' = Inr ([Some ''v'', Some ''v''], c2)
          \<and> map_of (store c2) ''K'' = Some e \<and> HIT_TTL e = 0
          \<and> has_cached_response c2 ''K'' = Inr (False, c3)
          \<and> map_of (store c3) ''K'' = None)"
proof -
  have h1: "0 < cache_size_limit (new_cache 10 ''lru'' 2 :: string cache)"
    by (simp add: new_cache_def)
  have h2: "hit_ttl (new_cache 10 ''lru'' 2 :: string cache) = int 2"
    by (simp add: new_cache_def)
  have h3: "(0::nat) < 2" by simp
  have r: "replicate 2 (Some ''v'') = [Some ''v'', Some ''v'']"
    by (simp add: numeral_2_eq_2)
  from ttl_exhaustion[OF h1 h2 h3, of "''K''" "''v''"] h1 h2 r show ?thesis by simp
qed

subsection \<open>Eviction never meets an empty store (claim C10)\<close>

lemma evict_nonempty_ok:
  "store c = x # xs \<Longrightarrow> \<exists>c'. evict c = Inr c'"
  by (simp add: evict_def od_popitem_first_def)

lemma periodic_cache_cleaner_pass_ok: "\<exists>c'. periodic_cache_cleaner_pass c = Inr c'"
proof (cases "store c")
  case Nil
  then show ?thesis by (simp add: periodic_cache_cleaner_pass_def get_cache_size_def)
next
  case (Cons x xs)
  with evict_nonempty_ok[OF Cons] show ?thesis
    by (simp add: periodic_cache_cleaner_pass_def get_cache_size_def)
qed

text \<open>
  C10. Under policy \<open>lru\<close>, \<open>evict\<close> raises \<open>KeyError\<close> on an empty store and
  removes the first entry of a non-empty one. Neither call site reaches the raising
  branch: in \<open>cache_response\<close>, with a size limit that is not negative (the argument
  parser admits no other), the eviction runs only when the limit is at least 1 and the
  store holds at least that many entries, so the store is not empty and the call
  returns; one pass of the periodic cleaner calls \<open>evict\<close> only on a store that is not
  empty and returns in every state.
\<close>

theorem evict_lru_never_fails_in_program:
  "(eviction_policy c = ''lru'' \<and> store c = [] \<longrightarrow> evict c = Inl KeyError)
   \<and> (eviction_policy c = ''lru'' \<longrightarrow>
        (\<forall>x xs. store c = x # xs \<longrightarrow> evict c = Inr (c\<lparr>store := xs\<rparr>)))
   \<and> (0 \<le> cache_size_limit c \<and> cache_size_limit c \<noteq> 0
        \<and> int (length (store c)) \<ge> cache_size_limit c
        \<longrightarrow> 1 \<le> cache_size_limit c \<and> store c \<noteq> [] \<and> (\<exists>c1. evict_if_full c = Inr c1))
   \<and> (0 \<le> cache_size_limit c \<longrightarrow> (\<exists>c'. cache_response c key resp = Inr c'))
   \<and> (\<exists>c'. periodic_cache_cleaner_pass c = Inr c')"
proof (intro conjI impI allI)
  assume "eviction_policy c = ''lru'' \<and> store c = []"
  then show "evict c = Inl KeyError" by (simp add: evict_def od_popitem_first_def)
next
  fix x xs
  assume "eviction_policy c = ''lru''" "store c = x # xs"
  then show "evict c = Inr (c\<lparr>store := xs\<rparr>)" by (simp add: evict_def od_popitem_first_def)
next
  assume a: "0 \<le> cache_size_limit c \<and> cache_size_limit c \<noteq> 0
             \<and> int (length (store c)) \<ge> cache_size_limit c"
  then show "1 \<le> cache_size_limit c" by simp
  from a show "store c \<noteq> []" by auto
  from a evict_if_full_ok[of c] show "\<exists>c1. evict_if_full c = Inr c1" by blast
next
  assume "0 \<le> cache_size_limit c"
  then show "\<exists>c'. cache_response c key resp = Inr c'" by (rule cache_response_ok)
next
  show "\<exists>c'. periodic_cache_cleaner_pass c = Inr c'" by (rule periodic_cache_cleaner_pass_ok)
qed

theorem evict_lru_never_fails_in_program_witness:
  "eviction_policy (new_cache 1 ''lru'' 10 :: string cache) = ''lru''
   \<and> store (new_cache 1 ''lru'' 10 :: string cache) = []
   \<and> evict (new_cache 1 ''lru'' 10 :: string cache) = Inl KeyError
   \<and> 0 \<le> cache_size_limit (new_cache 1 ''lru'' 10 :: string cache)
   \<and> (\<exists>c'. cache_response (new_cache 1 ''lru'' 10) ''k'' ''v'' = Inr (c' :: string cache))
   \<and> (\<exists>c'. periodic_cache_cleaner_pass (new_cache 1 ''lru'' 10 :: string cache) = Inr c')"
proof -
  let ?c = "new_cache 1 ''lru'' 10 :: string cache"
  have h: "eviction_policy ?c = ''lru''" "store ?c = []" "0 \<le> cache_size_limit ?c"
    by (simp_all add: new_cache_def)
  from evict_lru_never_fails_in_program[of ?c "''k''" "''v''"] h show ?thesis by blast
qed

subsection \<open>The size bound (claim C2)\<close>

lemma apply_op_frame:
  assumes "apply_op c op = Inr c'"
  shows "cache_size_limit c' = cache_size_limit c \<and> eviction_policy c' = eviction_policy c
         \<and> hit_ttl c' = hit_ttl c"
proof (cases op)
  case (Cache_response k v)
  with assms show ?thesis
    by (auto simp: apply_op_def cache_response_def evict_if_full_def evict_def
          od_popitem_first_def split: if_splits sum.splits list.splits)
next
  case (Get_cached_response k)
  with assms show ?thesis
    by (auto simp: apply_op_def get_cached_response_def od_move_to_end_def Let_def
          split: option.splits sum.splits)
next
  case (Has_cached_response k)
  with assms show ?thesis
    by (auto simp: apply_op_def has_cached_response_def remove_from_cache_def od_pop_def
          split: option.splits sum.splits if_splits)
next
  case (Remove_from_cache k)
  with assms show ?thesis
    by (auto simp: apply_op_def remove_from_cache_def od_pop_def split: option.splits)
next
  case Evict
  with assms show ?thesis
    by (auto simp: apply_op_def evict_def od_popitem_first_def split: if_splits list.splits)
qed

lemma step_frame:
  "cache_size_limit (step c op) = cache_size_limit c
   \<and> eviction_policy (step c op) = eviction_policy c \<and> hit_ttl (step c op) = hit_ttl c"
  using apply_op_frame[of c op] by (cases "apply_op c op") (simp_all add: step_def)

lemma length_delete_le: "length (AList.delete k d) \<le> length d"
  by (simp add: AList.delete_eq)

lemma length_delete_present:
  "map_of d k = Some v \<Longrightarrow> Suc (length (AList.delete k d)) \<le> length d"
proof -
  assume "map_of d k = Some v"
  then have "(k, v) \<in> set d" by (rule map_of_SomeD)
  then have "length (filter (\<lambda>(k', _). k \<noteq> k') d) < length d"
    by (intro length_filter_less[of "(k, v)"]) auto
  then show ?thesis by (simp add: AList.delete_eq)
qed

lemma length_update_le: "length (AList.update k v d) \<le> Suc (length d)"
  by (induction d) auto

lemma evict_length:
  assumes "evict c = Inr c'"
  shows "length (store c') \<le> length (store c)"
  using assms
  by (auto simp: evict_def od_popitem_first_def split: if_splits list.splits)

lemma evict_bounded_makes_room:
  assumes "evict c = Inr c'" "eviction_policy c = ''entire'' \<or> eviction_policy c = ''lru''"
    "store c \<noteq> []"
  shows "Suc (length (store c')) \<le> length (store c)"
  using assms
  by (cases "store c") (auto simp: evict_def od_popitem_first_def split: if_splits)

lemma cache_response_bound:
  assumes "cache_response c k v = Inr c'"
    "eviction_policy c = ''entire'' \<or> eviction_policy c = ''lru''"
    "int (length (store c)) \<le> cache_size_limit c"
  shows "int (length (store c')) \<le> cache_size_limit c"
proof (cases "cache_size_limit c = 0")
  case True
  with assms show ?thesis by (simp add: cache_response_def)
next
  case False
  from assms(1) False obtain c1 where
    c1: "evict_if_full c = Inr c1"
    and c': "c' = c1\<lparr>store := AList.update k \<lparr>response = v, HIT_TTL = hit_ttl c1\<rparr> (store c1)\<rparr>"
    by (auto simp: cache_response_def split: sum.splits)
  have "int (Suc (length (store c1))) \<le> cache_size_limit c"
  proof (cases "int (length (store c)) \<ge> cache_size_limit c")
    case True
    with c1 have e: "evict c = Inr c1" by (simp add: evict_if_full_def)
    from True False assms(3) have "store c \<noteq> []" by auto
    from evict_bounded_makes_room[OF e assms(2) this] assms(3) show ?thesis by linarith
  next
    case F: False
    with c1 have "c1 = c" by (simp add: evict_if_full_def)
    with F show ?thesis by simp
  qed
  moreover have "length (store c') \<le> Suc (length (store c1))"
    using c' by (simp add: length_update_le)
  ultimately show ?thesis by linarith
qed

lemma apply_op_bound:
  assumes "apply_op c op = Inr c'"
    "eviction_policy c = ''entire'' \<or> eviction_policy c = ''lru''"
    "int (length (store c)) \<le> cache_size_limit c"
  shows "int (length (store c')) \<le> cache_size_limit c"
proof (cases op)
  case (Cache_response k v)
  with assms cache_response_bound[of c k v c'] show ?thesis by (simp add: apply_op_def)
next
  case (Get_cached_response k)
  with assms(1) obtain e where e: "map_of (store c) k = Some e"
    by (auto simp: apply_op_def get_cached_response_def split: option.splits)
  with assms(1) Get_cached_response
  have "c' = c\<lparr>store := AList.delete k (store c) @ [(k, e\<lparr>HIT_TTL := HIT_TTL e - 1\<rparr>)]\<rparr>"
    by (simp add: apply_op_def get_cached_response_present)
  with length_delete_present[OF e] assms(3) show ?thesis by simp
next
  case (Has_cached_response k)
  with assms(1) have "c' = c \<or> c' = c\<lparr>store := AList.delete k (store c)\<rparr>"
    by (auto simp: apply_op_def has_cached_response_def remove_from_cache_def od_pop_def
          split: option.splits sum.splits if_splits)
  with length_delete_le[of k "store c"] assms(3) show ?thesis by auto
next
  case (Remove_from_cache k)
  with assms(1) have "c' = c\<lparr>store := AList.delete k (store c)\<rparr>"
    by (auto simp: apply_op_def remove_from_cache_def od_pop_def split: option.splits)
  with length_delete_le[of k "store c"] assms(3) show ?thesis by auto
next
  case Evict
  with assms(1) have "evict c = Inr c'" by (simp add: apply_op_def)
  from evict_length[OF this] assms(3) show ?thesis by simp
qed

lemma run_ops_bound:
  assumes "eviction_policy c = ''entire'' \<or> eviction_policy c = ''lru''"
    "int (length (store c)) \<le> cache_size_limit c"
  shows "int (length (store (run_ops c ops))) \<le> cache_size_limit c"
  using assms
proof (induction ops arbitrary: c)
  case Nil
  then show ?case by (simp add: run_ops_def)
next
  case (Cons op ops)
  have b: "int (length (store (step c op))) \<le> cache_size_limit c"
  proof (cases "apply_op c op")
    case (Inl e)
    with Cons.prems show ?thesis by (simp add: step_def)
  next
    case (Inr c')
    with apply_op_bound[OF Inr Cons.prems] show ?thesis by (simp add: step_def)
  qed
  from Cons.IH[of "step c op"] Cons.prems b step_frame[of c op]
  have "int (length (store (run_ops (step c op) ops))) \<le> cache_size_limit c" by simp
  then show ?case by (simp add: run_ops_def)
qed

lemma update_fresh: "map_of d k = None \<Longrightarrow> AList.update k v d = d @ [(k, v)]"
  by (induction d) (auto split: if_splits)

lemma cache_response_none_policy:
  assumes "eviction_policy c = ''none''" "cache_size_limit c \<noteq> 0" "map_of (store c) k = None"
  shows "cache_response c k v =
           Inr (c\<lparr>store := store c @ [(k, \<lparr>response = v, HIT_TTL = hit_ttl c\<rparr>)]\<rparr>)"
  using assms by (simp add: cache_response_def evict_if_full_def evict_def update_fresh)

lemma cache_responses_none_policy:
  assumes "eviction_policy c = ''none''" "cache_size_limit c \<noteq> 0"
    "distinct (map fst kvs)" "\<forall>k \<in> set (map fst kvs). map_of (store c) k = None"
  shows "\<exists>c'. cache_responses c kvs = Inr c'
           \<and> length (store c') = length (store c) + length kvs"
  using assms
proof (induction kvs arbitrary: c)
  case Nil
  then show ?case by simp
next
  case (Cons kv kvs)
  obtain k v where kv: "kv = (k, v)" by (cases kv)
  let ?c1 = "c\<lparr>store := store c @ [(k, \<lparr>response = v, HIT_TTL = hit_ttl c\<rparr>)]\<rparr>"
  from Cons.prems kv have r: "cache_response c k v = Inr ?c1"
    by (intro cache_response_none_policy) auto
  have fresh: "\<forall>k' \<in> set (map fst kvs). map_of (store ?c1) k' = None"
    using Cons.prems kv by (auto simp: map_add_def)
  from Cons.IH[of ?c1] Cons.prems fresh obtain c' where
    "cache_responses ?c1 kvs = Inr c'" "length (store c') = length (store ?c1) + length kvs"
    by auto
  with r kv show ?case by simp
qed

text \<open>
  C2. From an empty cache whose size limit is not negative (the only limits the
  argument parser lets through) and whose policy is \<open>entire\<close> or \<open>lru\<close>, no sequence
  of cache operations (raising ones included) leads to a store with more than
  \<open>cache_size_limit\<close> entries; every prefix of a sequence is a sequence, so the bound
  holds at every moment. Under policy \<open>none\<close> there is no bound: with a non-zero limit,
  \<open>cache_response\<close> with a key that is not stored adds an entry whatever the size of
  the store, and any number of distinct new keys are all stored.
\<close>

theorem cache_size_bound:
  "(store c0 = [] \<and> 0 \<le> cache_size_limit c0
      \<and> (eviction_policy c0 = ''entire'' \<or> eviction_policy c0 = ''lru'')
      \<longrightarrow> int (get_cache_size (run_ops c0 ops)) \<le> cache_size_limit c0)
   \<and> (eviction_policy c = ''none'' \<and> cache_size_limit c \<noteq> 0 \<and> map_of (store c) k = None
      \<longrightarrow> (\<exists>c'. cache_response c k v = Inr c'
              \<and> get_cache_size c' = Suc (get_cache_size c)))
   \<and> (eviction_policy c = ''none'' \<and> cache_size_limit c \<noteq> 0 \<and> distinct (map fst kvs)
        \<and> (\<forall>k \<in> set (map fst kvs). map_of (store c) k = None)
      \<longrightarrow> (\<exists>c'. cache_responses c kvs = Inr c'
              \<and> get_cache_size c' = get_cache_size c + length kvs))"
proof (intro conjI impI)
  assume "store c0 = [] \<and> 0 \<le> cache_size_limit c0
          \<and> (eviction_policy c0 = ''entire'' \<or> eviction_policy c0 = ''lru'')"
  then show "int (get_cache_size (run_ops c0 ops)) \<le> cache_size_limit c0"
    using run_ops_bound[of c0 ops] by (simp add: get_cache_size_def)
next
  assume "eviction_policy c = ''none'' \<and> cache_size_limit c \<noteq> 0 \<and> map_of (store c) k = None"
  then show "\<exists>c'. cache_response c k v = Inr c' \<and> get_cache_size c' = Suc (get_cache_size c)"
    by (simp add: cache_response_none_policy get_cache_size_def)
next
  assume "eviction_policy c = ''none'' \<and> cache_size_limit c \<noteq> 0 \<and> distinct (map fst kvs)
          \<and> (\<forall>k \<in> set (map fst kvs). map_of (store c) k = None)"
  then show "\<exists>c'. cache_responses c kvs = Inr c'
               \<and> get_cache_size c' = get_cache_size c + length kvs"
    using cache_responses_none_policy[of c kvs] by (simp add: get_cache_size_def)
qed

theorem cache_size_bound_witness:
  "store (new_cache 2 ''lru'' 10 :: string cache) = []
   \<and> 0 \<le> cache_size_limit (new_cache 2 ''lru'' 10 :: string cache)
   \<and> eviction_policy (new_cache 2 ''lru'' 10 :: string cache) = ''lru''
   \<and> int (get_cache_size (run_ops (new_cache 2 ''lru'' 10)
              [Cache_response ''a'' ''A'', Cache_response ''b'' ''B'', Get_cached_response ''a'',
               Cache_response ''c'' ''C'', Remove_from_cache ''z'', Has_cached_response ''b'',
               Evict, Cache_response ''d'' ''D'']))
       \<le> cache_size_limit (new_cache 2 ''lru'' 10 :: string cache)
   \<and> eviction_policy (new_cache 1 ''none'' 10 :: string cache) = ''none''
   \<and> cache_size_limit (new_cache 1 ''none'' 10 :: string cache) \<noteq> 0
   \<and> distinct (map fst [(''a'', ''A''), (''b'', ''B''), (''c'', ''C'')])
   \<and> store (new_cache 1 ''none'' 10 :: string cache) = []
   \<and> (\<exists>c'. cache_responses (new_cache 1 ''none'' 10)
                [(''a'', ''A''), (''b'', ''B''), (''c'', ''C'')] = Inr c'
            \<and> get_cache_size c' = 3)"
proof -
  let ?lru = "new_cache 2 ''lru'' 10 :: string cache"
  let ?non = "new_cache 1 ''none'' 10 :: string cache"
  let ?kvs = "[(''a'', ''A''), (''b'', ''B''), (''c'', ''C'')]"
  have h0: "store ?lru = [] \<and> 0 \<le> cache_size_limit ?lru
            \<and> (eviction_policy ?lru = ''entire'' \<or> eviction_policy ?lru = ''lru'')"
    by (simp add: new_cache_def)
  have h1: "eviction_policy ?non = ''none'' \<and> cache_size_limit ?non \<noteq> 0 \<and> distinct (map fst ?kvs)
            \<and> (\<forall>k \<in> set (map fst ?kvs). map_of (store ?non) k = None)"
    by (simp add: new_cache_def)
  have s: "get_cache_size ?non = 0" by (simp add: new_cache_def get_cache_size_def)
  let ?ops = "[Cache_response ''a'' ''A'', Cache_response ''b'' ''B'', Get_cached_response ''a'',
               Cache_response ''c'' ''C'', Remove_from_cache ''z'', Has_cached_response ''b'',
               Evict, Cache_response ''d'' ''D'']"
  note t = cache_size_bound[of ?lru ?ops ?non "''a''" "''A''" ?kvs]
  from t h0 have b: "int (get_cache_size (run_ops ?lru ?ops)) \<le> cache_size_limit ?lru"
    by blast
  from t h1 have "\<exists>c'. cache_responses ?non ?kvs = Inr c'
                    \<and> get_cache_size c' = get_cache_size ?non + length ?kvs"
    by blast
  with s have n: "\<exists>c'. cache_responses ?non ?kvs = Inr c' \<and> get_cache_size c' = 3"
    by (simp only: list.size add_0 One_nat_def add_Suc_right add_0_right numeral_3_eq_3)
  from h0 have h0': "store ?lru = []" "0 \<le> cache_size_limit ?lru" "eviction_policy ?lru = ''lru''"
    by (simp_all add: new_cache_def)
  from h1 have h1': "eviction_policy ?non = ''none''" "cache_size_limit ?non \<noteq> 0"
    "distinct (map fst ?kvs)" "\<forall>k \<in> set (map fst ?kvs). map_of (store ?non) k = None"
    by blast+
  have e: "store ?non = []" by (simp add: new_cache_def)
  show ?thesis
    using h0' b h1'(1,2,3) e n by (intro conjI)
qed

subsection \<open>Recency order (claim C4)\<close>




















section \<open>Python strings\<close>

text \<open>
  The \<open>str\<close> and \<open>bytes\<close> methods the message code calls. A character of a \<open>str\<close> is
  a code point, and the methods \<open>strip\<close>, \<open>lower\<close>, \<open>upper\<close>, \<open>capitalize\<close> and the
  regular expression's classes of word characters and of whitespace follow the Unicode
  character database.
  The tables are written out here for U+0000..U+00FF without U+00B5 (micro sign) and
  U+00FF (y with diaeresis), whose upper-case forms lie beyond U+00FF; that set is the
  alphabet of the model, and it is closed under the three case mappings.
\<close>

definition cp :: "char \<Rightarrow> nat" where
  "cp c = of_char c"

definition chr_of :: "nat \<Rightarrow> char" where
  "chr_of n = char_of n"

definition CR :: char where "CR = CHR 0x0D"
definition LF :: char where "LF = CHR 0x0A"
definition SP :: char where "SP = CHR 0x20"
definition TAB :: char where "TAB = CHR 0x09"
definition CRLF :: string where "CRLF = [CR, LF]"

definition in_alphabet :: "char \<Rightarrow> bool" where
  "in_alphabet c \<longleftrightarrow> cp c \<noteq> 0xB5 \<and> cp c \<noteq> 0xFF"

text \<open>\<open>str.isspace\<close>, which is also the whitespace class of a \<open>str\<close> pattern.\<close>

definition is_space :: "char \<Rightarrow> bool" where
  "is_space c \<longleftrightarrow>
     (let n = cp c
      in (0x09 \<le> n \<and> n \<le> 0x0D) \<or> (0x1C \<le> n \<and> n \<le> 0x20) \<or> n = 0x85 \<or> n = 0xA0)"

text \<open>The whitespace of \<open>bytes.strip()\<close> and of \<open>int\<close> applied to \<open>bytes\<close>.\<close>

definition is_ascii_space :: "char \<Rightarrow> bool" where
  "is_ascii_space c \<longleftrightarrow> (let n = cp c in (0x09 \<le> n \<and> n \<le> 0x0D) \<or> n = 0x20)"

text \<open>\<open>str.isalnum\<close>: letters, decimal digits and the other numeric characters.\<close>

definition is_alnum :: "char \<Rightarrow> bool" where
  "is_alnum c \<longleftrightarrow>
     (let n = cp c in
        (0x30 \<le> n \<and> n \<le> 0x39) \<or> (0x41 \<le> n \<and> n \<le> 0x5A) \<or> (0x61 \<le> n \<and> n \<le> 0x7A)
        \<or> n = 0xAA \<or> n = 0xB2 \<or> n = 0xB3 \<or> n = 0xB5 \<or> n = 0xB9 \<or> n = 0xBA
        \<or> (0xBC \<le> n \<and> n \<le> 0xBE) \<or> (0xC0 \<le> n \<and> n \<le> 0xD6)
        \<or> (0xD8 \<le> n \<and> n \<le> 0xF6) \<or> (0xF8 \<le> n \<and> n \<le> 0xFF))"

text \<open>
  Case mappings. The upper-case letters are A..Z, U+00C0..U+00D6 and U+00D8..U+00DE, each
  \<open>0x20\<close> below its lower-case letter; U+00DF (sharp s) is a lower-case letter whose
  upper case is \<open>SS\<close> and whose title case is \<open>Ss\<close>; every other character of the
  alphabet maps to itself.
\<close>

definition is_upper_letter :: "char \<Rightarrow> bool" where
  "is_upper_letter c \<longleftrightarrow>
     (let n = cp c in
        (0x41 \<le> n \<and> n \<le> 0x5A) \<or> (0xC0 \<le> n \<and> n \<le> 0xD6) \<or> (0xD8 \<le> n \<and> n \<le> 0xDE))"

definition has_upper_letter :: "char \<Rightarrow> bool" where
  "has_upper_letter c \<longleftrightarrow>
     (let n = cp c in
        (0x61 \<le> n \<and> n \<le> 0x7A) \<or> (0xE0 \<le> n \<and> n \<le> 0xF6) \<or> (0xF8 \<le> n \<and> n \<le> 0xFE))"

definition lower_char :: "char \<Rightarrow> char" where
  "lower_char c = (if is_upper_letter c then chr_of (cp c + 0x20) else c)"


definition title_char :: "char \<Rightarrow> str" where
  "title_char c =
     (if has_upper_letter c then [chr_of (cp c - 0x20)]
      else if cp c = 0xDF then ''Ss'' else [c])"

definition lower :: "str \<Rightarrow> str" where
  "lower s = map lower_char s"


text \<open>\<open>str.capitalize\<close>: the first character in title case, the others in lower case.\<close>

definition capitalize :: "str \<Rightarrow> str" where
  "capitalize s = (case s of [] \<Rightarrow> [] | c # cs \<Rightarrow> title_char c @ lower cs)"

definition strip :: "str \<Rightarrow> str" where
  "strip s = rev (dropWhile is_space (rev (dropWhile is_space s)))"

definition strip_bytes :: "bytes \<Rightarrow> bytes" where
  "strip_bytes s = rev (dropWhile is_ascii_space (rev (dropWhile is_ascii_space s)))"

text \<open>\<open>s.split(sep)\<close> for a separator of one character; the result is never empty.\<close>

fun split :: "char \<Rightarrow> str \<Rightarrow> str list" where
  "split sep [] = [[]]"
| "split sep (c # cs) =
     (if c = sep then [] # split sep cs
      else (case split sep cs of w # ws \<Rightarrow> (c # w) # ws | [] \<Rightarrow> [[c]]))"


fun join :: "str \<Rightarrow> str list \<Rightarrow> str" where
  "join sep [] = []"
| "join sep [w] = w"
| "join sep (w # ws) = w @ sep @ join sep ws"

definition startswith :: "str \<Rightarrow> str \<Rightarrow> bool" where
  "startswith s p \<longleftrightarrow> take (length p) s = p"


text \<open>\<open>s.replace(CRLF, LF)\<close>: occurrences are replaced from the left.\<close>

fun replace_crlf :: "str \<Rightarrow> str" where
  "replace_crlf (a # b # cs) =
     (if a = CR \<and> b = LF then LF # replace_crlf cs else a # replace_crlf (b # cs))"
| "replace_crlf cs = cs"

text \<open>
  UTF-8. \<open>utf8_decode\<close> is \<open>bytes.decode("utf-8", errors="replace")\<close> on the byte
  strings that decode into the alphabet (one byte below \<open>0x80\<close>, or \<open>0xC2\<close> or
  \<open>0xC3\<close> followed by a continuation byte), and \<open>None\<close> on every other byte string:
  those decode to text with a character beyond U+00FF (the replacement character
  U+FFFD for an invalid sequence), which the tables above do not cover.
  \<open>utf8_encode\<close> is \<open>str.encode("utf-8")\<close>.
\<close>

fun utf8_decode :: "bytes \<Rightarrow> str option" where
  "utf8_decode [] = Some []"
| "utf8_decode [b] = (if cp b < 0x80 then Some [b] else None)"
| "utf8_decode (b # b2 # bs) =
     (if cp b < 0x80 then map_option ((#) b) (utf8_decode (b2 # bs))
      else if (cp b = 0xC2 \<or> cp b = 0xC3) \<and> 0x80 \<le> cp b2 \<and> cp b2 \<le> 0xBF then
        (let c = chr_of (cp b2 + (cp b - 0xC2) * 0x40)
         in if in_alphabet c then map_option ((#) c) (utf8_decode bs) else None)
      else None)"

definition utf8_encode_char :: "char \<Rightarrow> bytes" where
  "utf8_encode_char c =
     (if cp c < 0x80 then [c]
      else if cp c < 0xC0 then [CHR 0xC2, c]
      else [CHR 0xC3, chr_of (cp c - 0x40)])"

definition utf8_encode :: "str \<Rightarrow> bytes" where
  "utf8_encode s = concat (map utf8_encode_char s)"

text \<open>\<open>str(n)\<close> for an int that is not negative (a length, a port number).\<close>

fun str_of_nat :: "nat \<Rightarrow> str" where
  "str_of_nat n =
     (if n < 10 then [chr_of (0x30 + n)] else str_of_nat (n div 10) @ [chr_of (0x30 + n mod 10)])"

declare str_of_nat.simps [simp del]

text \<open>
  \<open>int(s, base)\<close> for base 10 and base 16, on a string whose surrounding whitespace is
  already removed: an optional sign; for base 16 an optional prefix \<open>0x\<close> or \<open>0X\<close>,
  which one underscore may follow; then digits, where single underscores may stand
  between digits. For base 10 a literal of more than 4300 digits is refused (the
  interpreter's default limit for bases that are not a power of two). \<open>None\<close> stands
  for \<open>ValueError\<close>.
\<close>

definition digit_value :: "char \<Rightarrow> nat option" where
  "digit_value c =
     (let n = cp c in
        if 0x30 \<le> n \<and> n \<le> 0x39 then Some (n - 0x30)
        else if 0x61 \<le> n \<and> n \<le> 0x7A then Some (n - 0x61 + 10)
        else if 0x41 \<le> n \<and> n \<le> 0x5A then Some (n - 0x41 + 10)
        else None)"

text \<open>
  The digit loop: \<open>prev_us\<close> tells whether the previous character was an underscore,
  \<open>count\<close> is the number of digits read, \<open>acc\<close> their value.
\<close>

fun int_digits :: "nat \<Rightarrow> bool \<Rightarrow> nat \<Rightarrow> nat \<Rightarrow> str \<Rightarrow> (nat \<times> nat) option" where
  "int_digits base prev_us count acc [] =
     (if prev_us \<or> count = 0 then None else Some (count, acc))"
| "int_digits base prev_us count acc (c # cs) =
     (if c = CHR ''_'' then
        (if prev_us \<or> count = 0 then None else int_digits base True count acc cs)
      else
        (case digit_value c of
           None \<Rightarrow> None
         | Some d \<Rightarrow>
             if d < base then int_digits base False (Suc count) (acc * base + d) cs else None))"

definition int_unsigned :: "nat \<Rightarrow> str \<Rightarrow> nat option" where
  "int_unsigned base s =
     (let s1 = (if base = 16 \<and> (startswith s ''0x'' \<or> startswith s ''0X'')
                then (let r = drop 2 s in if startswith r ''_'' then drop 1 r else r)
                else s)
      in if startswith s1 ''_'' then None
         else (case int_digits base False 0 0 s1 of
                 None \<Rightarrow> None
               | Some (count, v) \<Rightarrow> if base = 10 \<and> count > 4300 then None else Some v))"

definition int_signed :: "nat \<Rightarrow> str \<Rightarrow> int option" where
  "int_signed base s =
     (case s of
        [] \<Rightarrow> None
      | c # cs \<Rightarrow>
          if c = CHR ''+'' then map_option int (int_unsigned base cs)
          else if c = CHR ''-'' then map_option (\<lambda>n. - int n) (int_unsigned base cs)
          else map_option int (int_unsigned base s))"

text \<open>\<open>int(s)\<close> for a \<open>str\<close> and \<open>int(b, 16)\<close> for \<open>bytes\<close>.\<close>

definition int_of_str :: "str \<Rightarrow> int option" where
  "int_of_str s = int_signed 10 (strip s)"

definition int_of_bytes_16 :: "bytes \<Rightarrow> int option" where
  "int_of_bytes_16 b = int_signed 16 (strip_bytes b)"

section \<open>HTTP headers: class HTTPHeaders\<close>

text \<open>
  The \<open>headers\<close> dict keeps insertion order, so it is an association list; its values
  are lists of strings.
\<close>

record HTTPHeaders =
  raw :: bytes
  start_line :: str
  headers :: "(str \<times> str list) list"

definition normalize_header :: "str \<Rightarrow> str" where
  "normalize_header repr_txt = join ''_'' (map lower (split (CHR ''-'') (strip repr_txt)))"

definition format_header :: "str \<Rightarrow> str" where
  "format_header norm_txt = join ''-'' (map capitalize (split (CHR ''_'') norm_txt))"

definition decode_header_bytes :: "bytes \<Rightarrow> str option" where
  "decode_header_bytes b = utf8_decode b"

definition split_header_lines :: "str \<Rightarrow> str list" where
  "split_header_lines decoded = split LF (replace_crlf decoded)"

text \<open>
  \<open>_unfold_lines\<close>: the loop over the lines with the list \<open>unfolded\<close> built so far.
  \<open>unfolded[-1]\<close> raises \<open>IndexError\<close> when a continuation line comes first.
\<close>

fun unfold_lines_loop :: "str list \<Rightarrow> str list \<Rightarrow> error + str list" where
  "unfold_lines_loop unfolded [] = Inr unfolded"
| "unfold_lines_loop unfolded (line # lines) =
     (if strip line = [] then unfold_lines_loop unfolded lines
      else if startswith line [SP] \<or> startswith line [TAB] then
        (if unfolded = [] then Inl IndexError
         else unfold_lines_loop
                (butlast unfolded @ [last unfolded @ [SP] @ strip line]) lines)
      else unfold_lines_loop (unfolded @ [line]) lines)"

definition unfold_lines :: "str list \<Rightarrow> error + str list" where
  "unfold_lines lines = unfold_lines_loop [] lines"

text \<open>
  \<open>re.search\<close> with the pattern of \<open>_parse_header_lines\<close>: a group of one or more
  characters that are word characters or hyphens, a colon, any whitespace, and a group
  that runs to the end of the line. Returns the two groups of the leftmost match.

  A match can only start inside a maximal run of name characters and, the colon not
  being a name character, must take the run to its end and find the colon right after
  it. So the leftmost match starts at the beginning of the first run that a colon
  follows, and its first group is that whole run. \<open>re_search_from run cs\<close> scans with
  the current run in \<open>run\<close>. After the colon the whitespace class takes all the
  whitespace there is, and the last group takes everything up to a line feed.
\<close>

definition is_name_char :: "char \<Rightarrow> bool" where
  "is_name_char c \<longleftrightarrow> is_alnum c \<or> c = CHR ''_'' \<or> c = CHR ''-''"

fun re_search_from :: "str \<Rightarrow> str \<Rightarrow> (str \<times> str) option" where
  "re_search_from run [] = None"
| "re_search_from run (c # cs) =
     (if is_name_char c then re_search_from (run @ [c]) cs
      else if c = CHR '':'' \<and> run \<noteq> [] then
        Some (run, takeWhile (\<lambda>x. x \<noteq> LF) (dropWhile is_space cs))
      else re_search_from [] cs)"

definition re_search :: "str \<Rightarrow> (str \<times> str) option" where
  "re_search line = re_search_from [] line"

text \<open>\<open>headers.setdefault(name, []).append(value)\<close>.\<close>

definition setdefault_append ::
  "str \<Rightarrow> str \<Rightarrow> (str \<times> str list) list \<Rightarrow> (str \<times> str list) list" where
  "setdefault_append name v hs =
     (case map_of hs name of
        None \<Rightarrow> hs @ [(name, [v])]
      | Some vs \<Rightarrow> AList.update name (vs @ [v]) hs)"

fun parse_header_lines_loop ::
  "(str \<times> str list) list \<Rightarrow> str list \<Rightarrow> (str \<times> str list) list" where
  "parse_header_lines_loop hs [] = hs"
| "parse_header_lines_loop hs (line # lines) =
     (case re_search line of
        None \<Rightarrow> parse_header_lines_loop hs lines
      | Some (name, v) \<Rightarrow>
          parse_header_lines_loop
            (setdefault_append (normalize_header name) (strip v) hs) lines)"

text \<open>\<open>lines[0]\<close> raises \<open>IndexError\<close> on an empty list.\<close>

definition parse_header_lines :: "str list \<Rightarrow> error + (str \<times> (str \<times> str list) list)" where
  "parse_header_lines lines =
     (case lines of
        [] \<Rightarrow> Inl IndexError
      | first # rest \<Rightarrow> Inr (first, parse_header_lines_loop [] rest))"

definition parse_raw_headers :: "bytes \<Rightarrow> error + (str \<times> (str \<times> str list) list)" where
  "parse_raw_headers b =
     (case decode_header_bytes b of
        None \<Rightarrow> Inl Unmodelled
      | Some decoded \<Rightarrow>
          (case unfold_lines (split_header_lines decoded) of
             Inl e \<Rightarrow> Inl e
           | Inr unfolded \<Rightarrow> parse_header_lines unfolded))"

text \<open>\<open>HTTPHeaders(raw_header)\<close>; the argument defaults to the empty byte string.\<close>

definition HTTPHeaders_init :: "bytes \<Rightarrow> error + HTTPHeaders" where
  "HTTPHeaders_init raw_header =
     (case parse_raw_headers raw_header of
        Inl e \<Rightarrow> Inl e
      | Inr (first, hs) \<Rightarrow> Inr \<lparr>raw = raw_header, start_line = first, headers = hs\<rparr>)"

text \<open>\<open>_update_raw_bytes\<close>: the list of header strings, each encoded, then joined.\<close>

definition header_strings :: "HTTPHeaders \<Rightarrow> str list" where
  "header_strings h =
     [start_line h @ CRLF]
     @ concat (map (\<lambda>(name, vs). map (\<lambda>v. format_header name @ '': '' @ v @ CRLF) vs)
                 (headers h))
     @ [CRLF]"

definition update_raw_bytes :: "HTTPHeaders \<Rightarrow> HTTPHeaders" where
  "update_raw_bytes h = h\<lparr>raw := concat (map utf8_encode (header_strings h))\<rparr>"

definition get_header :: "HTTPHeaders \<Rightarrow> str \<Rightarrow> str list option" where
  "get_header h name = map_of (headers h) (normalize_header name)"

definition insert_headers :: "HTTPHeaders \<Rightarrow> str \<Rightarrow> str list \<Rightarrow> HTTPHeaders" where
  "insert_headers h name vs =
     (let normalized_name = normalize_header name
      in update_raw_bytes
           (case map_of (headers h) normalized_name of
              None \<Rightarrow> h\<lparr>headers := AList.update normalized_name vs (headers h)\<rparr>
            | Some old \<Rightarrow> h\<lparr>headers := AList.update normalized_name (old @ vs) (headers h)\<rparr>))"

definition replace_headers :: "HTTPHeaders \<Rightarrow> str \<Rightarrow> str list \<Rightarrow> HTTPHeaders \<times> bool" where
  "replace_headers h name vs =
     (let normalized_name = normalize_header name
      in case map_of (headers h) normalized_name of
           Some old \<Rightarrow>
             (update_raw_bytes (h\<lparr>headers := AList.update normalized_name vs (headers h)\<rparr>),
              True)
         | None \<Rightarrow> (h, False))"

definition delete_headers :: "HTTPHeaders \<Rightarrow> str \<Rightarrow> HTTPHeaders \<times> bool" where
  "delete_headers h name =
     (case od_pop (normalize_header name) (headers h) of
        Inr hs \<Rightarrow> (update_raw_bytes (h\<lparr>headers := hs\<rparr>), True)
      | Inl e \<Rightarrow> (h, False))"

definition names :: "HTTPHeaders \<Rightarrow> str list" where
  "names h = map fst (headers h)"

section \<open>The stream reader: class AsyncHTTPStreamReader\<close>

text \<open>
  An \<open>asyncio.StreamReader\<close> is modelled by the bytes the peer sends before it closes
  the connection. \<open>readuntil\<close> returns the bytes up to and including the first
  occurrence of the separator; it raises \<open>LimitOverrunError\<close> when that occurrence
  starts beyond the reader's limit, or when there is none in more bytes than the limit,
  and \<open>IncompleteReadError\<close> when the stream ends first. The limit is asyncio's default
  of \<open>2 ** 16\<close>: the server opens its streams without a \<open>limit\<close> argument.
  \<open>readexactly\<close> raises \<open>ValueError\<close> for a negative count and \<open>IncompleteReadError\<close>
  when the stream ends first. Both return the bytes read and the rest of the stream.
\<close>

definition stream_limit :: int where
  "stream_limit = 65536"

fun find_bytes :: "bytes \<Rightarrow> bytes \<Rightarrow> nat option" where
  "find_bytes sep [] = (if sep = [] then Some 0 else None)"
| "find_bytes sep (b # bs) =
     (if startswith (b # bs) sep then Some 0 else map_option Suc (find_bytes sep bs))"

definition readuntil :: "bytes \<Rightarrow> bytes \<Rightarrow> error + (bytes \<times> bytes)" where
  "readuntil separator s =
     (case find_bytes separator s of
        None \<Rightarrow>
          if int (length s) + 1 - int (length separator) > stream_limit
          then Inl LimitOverrunError
          else Inl IncompleteReadError
      | Some isep \<Rightarrow>
          if int isep > stream_limit then Inl LimitOverrunError
          else Inr (take (isep + length separator) s, drop (isep + length separator) s))"

definition readexactly :: "int \<Rightarrow> bytes \<Rightarrow> error + (bytes \<times> bytes)" where
  "readexactly n s =
     (if n < 0 then Inl ValueError
      else if int (length s) < n then Inl IncompleteReadError
      else Inr (take (nat n) s, drop (nat n) s))"

datatype BodyReaderType = NOREAD | CHUNKED | CONTENT_LENGTH

record AsyncHTTPStreamReader =
  reader :: bytes
  body_reader_type :: BodyReaderType
  content_length :: int

text \<open>\<open>AsyncHTTPStreamReader(reader)\<close>.\<close>

definition new_reader :: "bytes \<Rightarrow> AsyncHTTPStreamReader" where
  "new_reader s = \<lparr>reader = s, body_reader_type = NOREAD, content_length = 0\<rparr>"


lemma find_bytes_bound: "find_bytes sep s = Some i \<Longrightarrow> i \<le> length s"
proof (induction s arbitrary: i)
  case Nil
  then show ?case by (simp split: if_splits)
next
  case (Cons b bs)
  then show ?case by (auto split: if_splits)
qed

lemma readuntil_shorter:
  assumes "readuntil sep s = Inr (chunk, rest)" "sep \<noteq> []"
  shows "length rest < length s"
proof -
  from assms(1) obtain i where i: "find_bytes sep s = Some i" "rest = drop (i + length sep) s"
    by (auto simp: readuntil_def split: option.splits if_splits)
  have "s \<noteq> []" using i(1) assms(2) by (cases s) auto
  with i(2) assms(2) show ?thesis by (cases sep) auto
qed

lemma readexactly_not_longer:
  "readexactly n s = Inr (chunk, rest) \<Longrightarrow> length rest \<le> length s"
  by (auto simp: readexactly_def split: if_splits)

text \<open>
  \<open>_read_chunked\<close>: the \<open>while True\<close> loop with the body read so far. Every round
  reads at least the two bytes of a CRLF, so the loop ends on every stream.
\<close>

function read_chunked_loop :: "bytes \<Rightarrow> bytes \<Rightarrow> error + (bytes \<times> bytes)" where
  "read_chunked_loop body s =
     (case readuntil CRLF s of
        Inl e \<Rightarrow> Inl e
      | Inr (size_line, s1) \<Rightarrow>
          (case int_of_bytes_16 (hd (split (CHR '';'') (strip_bytes size_line))) of
             None \<Rightarrow> Inl ValueError
           | Some chunk_size \<Rightarrow>
               if chunk_size = 0 then
                 (case readuntil CRLF s1 of
                    Inl e \<Rightarrow> Inl e
                  | Inr (trailer, s2) \<Rightarrow> Inr (body, s2))
               else
                 (case readexactly chunk_size s1 of
                    Inl e \<Rightarrow> Inl e
                  | Inr (chunk, s2) \<Rightarrow>
                      (case readuntil CRLF s2 of
                         Inl e \<Rightarrow> Inl e
                       | Inr (delimiter, s3) \<Rightarrow> read_chunked_loop (body @ chunk) s3))))"
  by pat_completeness auto
termination
proof (relation "measure (\<lambda>(body, s). length s)")
  show "wf (measure (\<lambda>(body, s). length s))" by simp
next
  fix body s x2 size_line s1 chunk_size x2a chunk s2 x2b delimiter s3
  assume a: "readuntil CRLF s = Inr x2" "(size_line, s1) = x2"
    "readexactly chunk_size s1 = Inr x2a" "(chunk, s2) = x2a"
    "readuntil CRLF s2 = Inr x2b" "(delimiter, s3) = x2b"
  have c: "CRLF \<noteq> []" by (simp add: CRLF_def)
  from a(1,2) have "length s1 < length s" using readuntil_shorter[OF _ c] by metis
  moreover from a(3,4) have "length s2 \<le> length s1" using readexactly_not_longer by metis
  moreover from a(5,6) have "length s3 < length s2" using readuntil_shorter[OF _ c] by metis
  ultimately show "((body @ chunk, s3), (body, s)) \<in> measure (\<lambda>(body, s). length s)"
    by simp
qed

declare read_chunked_loop.simps [simp del]

definition read_chunked :: "AsyncHTTPStreamReader \<Rightarrow> error + (bytes \<times> AsyncHTTPStreamReader)" where
  "read_chunked r =
     (case read_chunked_loop [] (reader r) of
        Inl e \<Rightarrow> Inl e
      | Inr (body, rest) \<Rightarrow> Inr (body, r\<lparr>reader := rest\<rparr>))"

definition read_exactly :: "AsyncHTTPStreamReader \<Rightarrow> error + (bytes \<times> AsyncHTTPStreamReader)" where
  "read_exactly r =
     (case readexactly (content_length r) (reader r) of
        Inl e \<Rightarrow> Inl e
      | Inr (body, rest) \<Rightarrow> Inr (body, r\<lparr>reader := rest\<rparr>))"

definition read_body :: "AsyncHTTPStreamReader \<Rightarrow> error + (bytes \<times> AsyncHTTPStreamReader)" where
  "read_body r =
     (case body_reader_type r of
        NOREAD \<Rightarrow> Inr ([], r)
      | CHUNKED \<Rightarrow> read_chunked r
      | CONTENT_LENGTH \<Rightarrow> read_exactly r)"

section \<open>Messages and the message builders\<close>








text \<open>
  \<open>_expected_body_size\<close> and \<open>_expect_chunked_body\<close>: indexing the value list with
  \<open>[0]\<close> raises \<open>IndexError\<close> on an empty list, \<open>int\<close> raises \<open>ValueError\<close>.
\<close>

definition expected_body_size :: "HTTPHeaders \<Rightarrow> error + int" where
  "expected_body_size h =
     (case get_header h ''content_length'' of
        None \<Rightarrow> Inr 0
      | Some content_length_header \<Rightarrow>
          (case content_length_header of
             [] \<Rightarrow> Inl IndexError
           | v # _ \<Rightarrow> (case int_of_str v of None \<Rightarrow> Inl ValueError | Some n \<Rightarrow> Inr n)))"

definition expect_chunked_body :: "HTTPHeaders \<Rightarrow> error + bool" where
  "expect_chunked_body h =
     (case get_header h ''transfer_encoding'' of
        None \<Rightarrow> Inr False
      | Some chunked_header \<Rightarrow>
          (case chunked_header of
             [] \<Rightarrow> Inl IndexError
           | v # _ \<Rightarrow> Inr (v = ''chunked'')))"

text \<open>
  \<open>_dechunk_body\<close>. The two \<open>if\<close> tests are truth tests of the value list: a header
  that is absent or has an empty list of values fails them.
\<close>

definition truthy :: "str list option \<Rightarrow> bool" where
  "truthy v \<longleftrightarrow> (case v of None \<Rightarrow> False | Some vs \<Rightarrow> vs \<noteq> [])"

definition dechunk_body :: "HTTPHeaders \<Rightarrow> bytes \<Rightarrow> HTTPHeaders" where
  "dechunk_body h body =
     (let body_size = str_of_nat (length body)
      in if truthy (get_header h ''transfer_encoding'') then
           (let h1 = fst (delete_headers h ''transfer_encoding'')
            in if truthy (get_header h1 ''content_length'')
               then fst (replace_headers h1 ''content_length'' [body_size])
               else insert_headers h1 ''content_length'' [body_size])
         else h)"

text \<open>
  \<open>_build_body\<close>; the headers are returned too, since the chunked branch rewrites them.
  The \<open>elif\<close> branch is taken for every length that is not zero, negative ones included.
\<close>

definition build_body ::
  "HTTPHeaders \<Rightarrow> AsyncHTTPStreamReader
     \<Rightarrow> error + (HTTPHeaders \<times> bytes \<times> AsyncHTTPStreamReader)" where
  "build_body h r =
     (case expect_chunked_body h of
        Inl e \<Rightarrow> Inl e
      | Inr chunked \<Rightarrow>
          if chunked then
            (case read_body (r\<lparr>body_reader_type := CHUNKED\<rparr>) of
               Inl e \<Rightarrow> Inl e
             | Inr (body, r1) \<Rightarrow> Inr (dechunk_body h body, body, r1))
          else
            (case expected_body_size h of
               Inl e \<Rightarrow> Inl e
             | Inr n \<Rightarrow>
                 if n \<noteq> 0 then
                   (case read_body (r\<lparr>body_reader_type := CONTENT_LENGTH, content_length := n\<rparr>) of
                      Inl e \<Rightarrow> Inl e
                    | Inr (body, r1) \<Rightarrow> Inr (h, body, r1))
                 else Inr (h, [], r)))"





section \<open>The proxy handler: class CachingProxyServer\<close>

text \<open>The value the handler caches: \<open>{"header": ..., "body": ...}\<close>.\<close>

record cachable_response =
  header :: bytes
  body :: bytes










section \<open>Examples from the specification\<close>

text \<open>
  The chunked response of the spec's scenario 6: a header block that announces chunked
  framing, and a body stream of the chunks \<open>Wiki\<close> and \<open>pedia\<close> and the last chunk.
\<close>

definition wiki_head :: bytes where
  "wiki_head = ''HTTP/1.1 200 OK'' @ CRLF @ ''Transfer-Encoding: chunked'' @ CRLF @ CRLF"

definition wiki_chunks :: bytes where
  "wiki_chunks = ''4'' @ CRLF @ ''Wiki'' @ CRLF @ ''5'' @ CRLF @ ''pedia'' @ CRLF @ ''0'' @ CRLF @ CRLF"

definition wiki_headers :: HTTPHeaders where
  "wiki_headers =
     \<lparr>raw = wiki_head, start_line = ''HTTP/1.1 200 OK'',
      headers = [(''transfer_encoding'', [''chunked''])]\<rparr>"














section \<open>Properties of the header set and the message builder\<close>

subsection \<open>Construction from an empty block (claim C8)\<close>

text \<open>
  C8 does not hold of the code. The only line of an empty block is blank, so
  \<open>_unfold_lines\<close> returns no line at all and \<open>lines[0]\<close> in \<open>_parse_header_lines\<close>
  raises \<open>IndexError\<close>: \<open>HTTPHeaders(b"")\<close>, which is also \<open>HTTPHeaders()\<close> by the
  default of the argument, fails. The same happens for a block of blank lines only.
\<close>

theorem HTTPHeaders_init_empty_raises:
  "HTTPHeaders_init [] = Inl IndexError \<and> HTTPHeaders_init (CRLF @ CRLF) = Inl IndexError"
  by code_simp

subsection \<open>Dechunking (claim C5)\<close>

lemma normalize_transfer_encoding:
  "normalize_header ''transfer_encoding'' = ''transfer_encoding''"
  by code_simp

lemma normalize_content_length:
  "normalize_header ''content_length'' = ''content_length''"
  by code_simp

lemma update_raw_bytes_fields:
  "headers (update_raw_bytes h) = headers h" "start_line (update_raw_bytes h) = start_line h"
  "raw (update_raw_bytes h) = concat (map utf8_encode (header_strings h))"
  by (simp_all add: update_raw_bytes_def header_strings_def)

lemma dechunk_body_headers:
  assumes "map_of (headers h) ''transfer_encoding'' = Some (v # vs)"
  shows "headers (dechunk_body h b) =
           AList.update ''content_length'' [str_of_nat (length b)]
             (AList.delete ''transfer_encoding'' (headers h))"
    and "start_line (dechunk_body h b) = start_line h"
    and "raw (dechunk_body h b) = concat (map utf8_encode (header_strings (dechunk_body h b)))"
proof -
  let ?h1 = "update_raw_bytes (h\<lparr>headers := AList.delete ''transfer_encoding'' (headers h)\<rparr>)"
  have d: "delete_headers h ''transfer_encoding'' = (?h1, True)"
    using assms by (simp add: delete_headers_def od_pop_def normalize_transfer_encoding)
  have t: "truthy (get_header h ''transfer_encoding'')"
    using assms by (simp add: truthy_def get_header_def normalize_transfer_encoding)
  have h1: "headers ?h1 = AList.delete ''transfer_encoding'' (headers h)"
    by (simp add: update_raw_bytes_fields)
  let ?n = "str_of_nat (length b)"
  let ?hs = "AList.update ''content_length'' [?n] (headers ?h1)"
  have r: "truthy (get_header ?h1 ''content_length'') \<Longrightarrow>
           fst (replace_headers ?h1 ''content_length'' [?n])
             = update_raw_bytes (?h1\<lparr>headers := ?hs\<rparr>)"
    by (auto simp: truthy_def get_header_def replace_headers_def normalize_content_length
          split: option.splits)
  have i: "\<not> truthy (get_header ?h1 ''content_length'') \<Longrightarrow>
           insert_headers ?h1 ''content_length'' [?n]
             = update_raw_bytes (?h1\<lparr>headers := ?hs\<rparr>)"
    by (auto simp: truthy_def get_header_def insert_headers_def normalize_content_length
          split: option.splits)
  have e: "dechunk_body h b = update_raw_bytes (?h1\<lparr>headers := ?hs\<rparr>)"
    using t d r i by (simp add: dechunk_body_def Let_def)
  show "headers (dechunk_body h b) =
           AList.update ''content_length'' [str_of_nat (length b)]
             (AList.delete ''transfer_encoding'' (headers h))"
    by (simp add: e update_raw_bytes_fields)
  show "start_line (dechunk_body h b) = start_line h"
    by (simp add: e update_raw_bytes_fields)
  show "raw (dechunk_body h b) = concat (map utf8_encode (header_strings (dechunk_body h b)))"
    unfolding e by (simp add: update_raw_bytes_def header_strings_def)
qed

lemma build_body_chunked:
  assumes "expect_chunked_body h = Inr True" "build_body h r = Inr (h', b, r')"
  shows "h' = dechunk_body h b" "read_chunked_loop [] (reader r) = Inr (b, reader r')"
    "\<exists>vs. map_of (headers h) ''transfer_encoding'' = Some (''chunked'' # vs)"
proof -
  from assms show "h' = dechunk_body h b"
    by (auto simp: build_body_def split: sum.splits)
  from assms show "read_chunked_loop [] (reader r) = Inr (b, reader r')"
    by (auto simp: build_body_def read_body_def read_chunked_def split: sum.splits)
  from assms(1) show "\<exists>vs. map_of (headers h) ''transfer_encoding'' = Some (''chunked'' # vs)"
    by (auto simp: expect_chunked_body_def get_header_def normalize_transfer_encoding
          split: option.splits list.splits)
qed

lemma read_chunked_loop_chunk:
  assumes "readuntil CRLF s = Inr (size_line, s1)"
    "int_of_bytes_16 (hd (split (CHR '';'') (strip_bytes size_line))) = Some n" "n \<noteq> 0"
    "readexactly n s1 = Inr (chunk, s2)" "readuntil CRLF s2 = Inr (delimiter, s3)"
  shows "read_chunked_loop b s = read_chunked_loop (b @ chunk) s3"
  using assms by (subst read_chunked_loop.simps) simp

lemma read_chunked_loop_last:
  assumes "readuntil CRLF s = Inr (size_line, s1)"
    "int_of_bytes_16 (hd (split (CHR '';'') (strip_bytes size_line))) = Some 0"
    "readuntil CRLF s1 = Inr (trailer, s2)"
  shows "read_chunked_loop b s = Inr (b, s2)"
  using assms by (subst read_chunked_loop.simps) simp

lemma wiki_chunks_read: "read_chunked_loop [] wiki_chunks = Inr (''Wikipedia'', [])"
proof -
  let ?s1 = "''Wiki'' @ CRLF @ ''5'' @ CRLF @ ''pedia'' @ CRLF @ ''0'' @ CRLF @ CRLF"
  let ?s2 = "CRLF @ ''5'' @ CRLF @ ''pedia'' @ CRLF @ ''0'' @ CRLF @ CRLF"
  let ?s3 = "''5'' @ CRLF @ ''pedia'' @ CRLF @ ''0'' @ CRLF @ CRLF"
  let ?s4 = "''pedia'' @ CRLF @ ''0'' @ CRLF @ CRLF"
  let ?s5 = "CRLF @ ''0'' @ CRLF @ CRLF"
  let ?s6 = "''0'' @ CRLF @ CRLF"
  note ru = readuntil_def CRLF_def CR_def LF_def startswith_def stream_limit_def
  have a1: "readuntil CRLF wiki_chunks = Inr (''4'' @ CRLF, ?s1)"
    by (simp add: ru wiki_chunks_def)
  have a2: "int_of_bytes_16 (hd (split (CHR '';'') (strip_bytes (''4'' @ CRLF)))) = Some 4"
    by code_simp
  have a3: "readexactly 4 ?s1 = Inr (''Wiki'', ?s2)" by (simp add: readexactly_def)
  have a4: "readuntil CRLF ?s2 = Inr (CRLF, ?s3)" by (simp add: ru)
  have b1: "readuntil CRLF ?s3 = Inr (''5'' @ CRLF, ?s4)" by (simp add: ru)
  have b2: "int_of_bytes_16 (hd (split (CHR '';'') (strip_bytes (''5'' @ CRLF)))) = Some 5"
    by code_simp
  have b3: "readexactly 5 ?s4 = Inr (''pedia'', ?s5)" by (simp add: readexactly_def)
  have b4: "readuntil CRLF ?s5 = Inr (CRLF, ?s6)" by (simp add: ru)
  have c1: "readuntil CRLF ?s6 = Inr (''0'' @ CRLF, CRLF)" by (simp add: ru)
  have c2: "int_of_bytes_16 (hd (split (CHR '';'') (strip_bytes (''0'' @ CRLF)))) = Some 0"
    by code_simp
  have c3: "readuntil CRLF CRLF = Inr (CRLF, [])" by (simp add: ru)
  have "read_chunked_loop [] wiki_chunks = read_chunked_loop ([] @ ''Wiki'') ?s3"
    by (rule read_chunked_loop_chunk[OF a1 a2 _ a3 a4]) simp
  also have "\<dots> = read_chunked_loop (([] @ ''Wiki'') @ ''pedia'') ?s6"
    by (rule read_chunked_loop_chunk[OF b1 b2 _ b3 b4]) simp
  also have "\<dots> = Inr (([] @ ''Wiki'') @ ''pedia'', [])"
    by (rule read_chunked_loop_last[OF c1 c2 c3])
  finally show ?thesis by simp
qed

lemma wiki_body_built:
  "build_body wiki_headers (new_reader wiki_chunks)
       = Inr (dechunk_body wiki_headers ''Wikipedia'', ''Wikipedia'',
              \<lparr>reader = [], body_reader_type = CHUNKED, content_length = 0\<rparr>)"
proof -
  have h1: "expect_chunked_body wiki_headers = Inr True" by code_simp
  show ?thesis
    by (simp add: build_body_def h1 read_body_def read_chunked_def new_reader_def wiki_chunks_read)
qed

lemma wiki_raw: "raw (dechunk_body wiki_headers ''Wikipedia'')
       = ''HTTP/1.1 200 OK'' @ CRLF @ ''Content-Length: 9'' @ CRLF @ CRLF"
  by code_simp

text \<open>
  C5. When the headers select chunked framing and the body is built, the body is what
  the chunk loop read from the stream, and the headers of the message are rewritten:
  \<open>Transfer-Encoding\<close> is absent, \<open>Content-Length\<close> has the single value
  \<open>str(len(body))\<close>, standing where \<open>Content-Length\<close> stood when the header was
  present and at the end otherwise, the start line is unchanged, and the raw bytes are
  the serialization of the rewritten headers.
\<close>

theorem dechunked_message_headers:
  assumes "expect_chunked_body h = Inr True" "build_body h r = Inr (h', b, r')"
  shows "read_chunked_loop [] (reader r) = Inr (b, reader r')
         \<and> get_header h' ''Transfer-Encoding'' = None
         \<and> get_header h' ''Content-Length'' = Some [str_of_nat (length b)]
         \<and> names h' =
             (if ''content_length'' \<in> set (names h)
              then removeAll ''transfer_encoding'' (names h)
              else removeAll ''transfer_encoding'' (names h) @ [''content_length''])
         \<and> start_line h' = start_line h
         \<and> raw h' = concat (map utf8_encode (header_strings h'))"
proof -
  from build_body_chunked[OF assms] obtain vs where
    e: "h' = dechunk_body h b" and l: "read_chunked_loop [] (reader r) = Inr (b, reader r')"
    and m: "map_of (headers h) ''transfer_encoding'' = Some (''chunked'' # vs)"
    by blast
  note d = dechunk_body_headers[OF m, of b]
  have n1: "normalize_header ''Transfer-Encoding'' = ''transfer_encoding''" by code_simp
  have n2: "normalize_header ''Content-Length'' = ''content_length''" by code_simp
  have g1: "get_header h' ''Transfer-Encoding'' = None"
    by (simp add: get_header_def n1 e d(1) AList.update_conv' AList.delete_conv')
  have g2: "get_header h' ''Content-Length'' = Some [str_of_nat (length b)]"
    by (simp add: get_header_def n2 e d(1) AList.update_conv')
  have g3: "names h' =
             (if ''content_length'' \<in> set (names h)
              then removeAll ''transfer_encoding'' (names h)
              else removeAll ''transfer_encoding'' (names h) @ [''content_length''])"
    by (simp add: names_def e d(1) AList.update_keys AList.delete_keys)
  from l g1 g2 g3 d(2,3) e show ?thesis by simp
qed


theorem dechunked_message_headers_witness:
  "HTTPHeaders_init wiki_head = Inr wiki_headers
   \<and> expect_chunked_body wiki_headers = Inr True
   \<and> build_body wiki_headers (new_reader wiki_chunks)
       = Inr (dechunk_body wiki_headers ''Wikipedia'', ''Wikipedia'',
              \<lparr>reader = [], body_reader_type = CHUNKED, content_length = 0\<rparr>)
   \<and> get_header (dechunk_body wiki_headers ''Wikipedia'') ''Transfer-Encoding'' = None
   \<and> get_header (dechunk_body wiki_headers ''Wikipedia'') ''Content-Length'' = Some [''9'']
   \<and> names (dechunk_body wiki_headers ''Wikipedia'') = [''content_length'']
   \<and> raw (dechunk_body wiki_headers ''Wikipedia'')
       = ''HTTP/1.1 200 OK'' @ CRLF @ ''Content-Length: 9'' @ CRLF @ CRLF"
proof -
  have p: "HTTPHeaders_init wiki_head = Inr wiki_headers" by code_simp
  have h1: "expect_chunked_body wiki_headers = Inr True" by code_simp
  note h2 = wiki_body_built
  have n: "str_of_nat (length ''Wikipedia'') = ''9''" by code_simp
  have k: "names wiki_headers = [''transfer_encoding'']" by code_simp
  from dechunked_message_headers[OF h1 h2] p h1 h2 n k wiki_raw show ?thesis by simp
qed

subsection \<open>The header round trip (claim C6)\<close>






lemma split_nonempty: "split sep x \<noteq> []"
  by (induction x) (auto split: list.splits)

lemma split_Cons_other:
  "c \<noteq> sep \<Longrightarrow> split sep (c # cs) = (c # hd (split sep cs)) # tl (split sep cs)"
  using split_nonempty[of sep cs] by (cases "split sep cs") auto

lemma split_no_sep: "sep \<notin> set x \<Longrightarrow> split sep x = [x]"
  by (induction x) (auto simp: split_Cons_other)

























































































section \<open>Properties of the proxy handler\<close>

























end
